theory Spec2Isabelle
  imports Main "HOL-Library.Word"
begin

section \<open>Data model of the Stellar-Save contract\<close>

text \<open>
  The contract is a Soroban (Rust) contract. Its integers have a width: group ids and
  timestamps are \<open>u64\<close>, cycles and member counts are \<open>u32\<close>, amounts are \<open>i128\<close>
  (a 128-bit word read with \<open>sint\<close>). Addresses are opaque account identities.
\<close>

type_synonym u32 = "32 word"
type_synonym u64 = "64 word"
type_synonym i128 = "128 word"
type_synonym address = string

text \<open>
  \<open>StellarSaveError\<close>: the variants that \<open>contribute\<close> returns, and \<open>InvalidConfig\<close> of
  group creation.
\<close>

datatype StellarSaveError =
  GroupNotFound | InvalidState | NotMember | InvalidAmount | AlreadyContributed | InvalidConfig

text \<open>
  An invocation either returns \<open>Ok\<close>, returns \<open>Err\<close>, or traps: \<open>require_auth\<close> of an
  address that did not authorise the call and an arithmetic overflow (the implementation
  summary lists overflow protection as enabled in the builds) abort the invocation, and
  the host discards its writes and events.
\<close>

datatype 'a outcome = Trap | Err StellarSaveError | Ok 'a

text \<open>
  Modelled from the spec: the declaration of \<open>group::GroupStatus\<close> is missing from the
  sources. The variants are those of the data model (section 3 of the specification);
  \<open>contribute\<close> names the initial variant \<open>Pending\<close>, the summary of the group queries
  and the specification name it \<open>Forming\<close> (naming may vary, says the specification;
  the semantics are fixed), so \<open>Forming\<close> abbreviates it.
\<close>

datatype GroupStatus = Pending | Active | Completed | Cancelled

abbreviation Forming :: GroupStatus where
  "Forming \<equiv> Pending"

text \<open>
  Modelled from the spec: the method \<open>GroupStatus::accepts_contributions\<close> is missing
  from the sources. Section 4.1: true only for \<open>Active\<close>.
\<close>

fun accepts_contributions :: "GroupStatus \<Rightarrow> bool" where
  "accepts_contributions Active = True"
| "accepts_contributions _ = False"

text \<open>
  Modelled from the spec: the declaration of the struct \<open>Group\<close> is missing from the
  sources. The fields are those of section 3; \<open>contribute\<close> reads
  \<open>contribution_amount\<close> (added to an \<open>i128\<close>), \<open>current_cycle\<close> and \<open>member_count\<close>
  (compared with a \<open>u32\<close>). \<open>started_at\<close> is \<open>None\<close> until the group is activated.
\<close>

record Group =
  group_id :: u64
  admin :: address
  name :: string
  contribution_amount :: i128
  cycle_duration :: u64
  max_members :: u32
  member_count :: u32
  current_cycle :: u32
  started_at :: "u64 option"

text \<open>
  \<open>ContributionRecord::new(contributor, group_id, cycle, amount, timestamp)\<close>: the
  constructor takes the five attributes in this order.
\<close>

datatype ContributionRecord =
  ContributionRecord (rec_contributor: address) (rec_group_id: u64) (rec_cycle: u32)
    (rec_amount: i128) (rec_contributed_at: u64)

text \<open>
  The persistent store. \<open>StorageKeyBuilder\<close> puts a domain discriminant into every key,
  so each key domain is a map of its own, from the fields of the key to values of the
  one type stored under that domain. A member profile is only ever tested with \<open>has\<close>:
  the domain is the set of keys that are present.
\<close>

record Storage =
  member_profile :: "(u64 \<times> address) set"
  group_data :: "u64 \<rightharpoonup> Group"
  group_status :: "u64 \<rightharpoonup> GroupStatus"
  contribution_individual :: "(u64 \<times> u32 \<times> address) \<rightharpoonup> ContributionRecord"
  contribution_cycle_total :: "(u64 \<times> u32) \<rightharpoonup> i128"
  contribution_cycle_count :: "(u64 \<times> u32) \<rightharpoonup> u32"

text \<open>
  What an invocation sees of its environment: the addresses that authorised it, and the
  ledger's timestamp and sequence number.
\<close>

record Env =
  authorized :: "address set"
  ledger_timestamp :: u64
  ledger_sequence :: u32

text \<open>
  The events: \<open>emit_contribution_made(env, group_id, contributor, amount, cycle,
  cycle_total, timestamp)\<close> and the \<open>cycle_complete\<close> event with topic \<open>group_id\<close> and
  data \<open>cycle\<close>.
\<close>

datatype Event =
  ContributionMade u64 address i128 u32 i128 u64
| CycleComplete u64 u32

section \<open>Checked arithmetic\<close>

text \<open>\<open>a + b\<close> on \<open>i128\<close> and on \<open>u32\<close> with overflow checks: \<open>None\<close> is the panic.\<close>

definition add_i128 :: "i128 \<Rightarrow> i128 \<Rightarrow> i128 option" where
  "add_i128 a b =
     (if sint a + sint b < - (2 ^ 127) \<or> 2 ^ 127 \<le> sint a + sint b then None
      else Some (a + b))"

definition add_u32 :: "u32 \<Rightarrow> u32 \<Rightarrow> u32 option" where
  "add_u32 a b = (if 2 ^ 32 \<le> unat a + unat b then None else Some (a + b))"

section \<open>The contribution engine\<close>

text \<open>
  \<open>contribute(env, group_id, contributor)\<close>, step by step as in the source. The result is
  the outcome, the store after the invocation and the events it published. Every early
  return comes before the first write; a trap rolls the writes back. The snippets do not
  show where \<open>timestamp\<close> is bound: it is the timestamp of the ledger.
\<close>

definition contribute ::
  "Env \<Rightarrow> Storage \<Rightarrow> u64 \<Rightarrow> address \<Rightarrow> unit outcome \<times> Storage \<times> Event list" where
  "contribute env s gid contributor =
    (if contributor \<notin> authorized env then (Trap, s, [])
     else if (gid, contributor) \<notin> member_profile s then (Err NotMember, s, [])
     else case group_data s gid of
       None \<Rightarrow> (Err GroupNotFound, s, [])
     | Some grp \<Rightarrow>
        let status = (case group_status s gid of None \<Rightarrow> Pending | Some st \<Rightarrow> st) in
        if \<not> accepts_contributions status then (Err InvalidState, s, [])
        else
          let amount = contribution_amount grp in
          if sint amount \<le> 0 then (Err InvalidAmount, s, [])
          else
            let cycle = current_cycle grp in
            if contribution_individual s (gid, cycle, contributor) \<noteq> None
            then (Err AlreadyContributed, s, [])
            else
              let timestamp = ledger_timestamp env;
                  contribution = ContributionRecord contributor gid cycle amount timestamp;
                  s1 = s\<lparr>contribution_individual :=
                         (contribution_individual s)((gid, cycle, contributor) \<mapsto> contribution)\<rparr>;
                  current_total =
                    (case contribution_cycle_total s1 (gid, cycle) of None \<Rightarrow> 0 | Some t \<Rightarrow> t)
              in case add_i128 current_total amount of
                None \<Rightarrow> (Trap, s, [])
              | Some cycle_total \<Rightarrow>
                 let s2 = s1\<lparr>contribution_cycle_total :=
                            (contribution_cycle_total s1)((gid, cycle) \<mapsto> cycle_total)\<rparr>;
                     current_count =
                       (case contribution_cycle_count s2 (gid, cycle) of None \<Rightarrow> 0 | Some n \<Rightarrow> n)
                 in case add_u32 current_count 1 of
                   None \<Rightarrow> (Trap, s, [])
                 | Some new_count \<Rightarrow>
                    let s3 = s2\<lparr>contribution_cycle_count :=
                               (contribution_cycle_count s2)((gid, cycle) \<mapsto> new_count)\<rparr>
                    in (Ok (), s3,
                        ContributionMade gid contributor amount cycle cycle_total timestamp #
                        (if new_count = member_count grp then [CycleComplete gid cycle]
                         else [])))"


text \<open>
  The three reads with a default: \<open>unwrap_or(GroupStatus::Pending)\<close> for the status,
  \<open>unwrap_or(0)\<close> for the two aggregates of a cycle.
\<close>

definition status_or_default :: "Storage \<Rightarrow> u64 \<Rightarrow> GroupStatus" where
  "status_or_default s gid = (case group_status s gid of None \<Rightarrow> Pending | Some st \<Rightarrow> st)"

definition total_or_0 :: "Storage \<Rightarrow> u64 \<Rightarrow> u32 \<Rightarrow> i128" where
  "total_or_0 s gid cyc =
     (case contribution_cycle_total s (gid, cyc) of None \<Rightarrow> 0 | Some t \<Rightarrow> t)"

definition count_or_0 :: "Storage \<Rightarrow> u64 \<Rightarrow> u32 \<Rightarrow> u32" where
  "count_or_0 s gid cyc =
     (case contribution_cycle_count s (gid, cyc) of None \<Rightarrow> 0 | Some n \<Rightarrow> n)"

text \<open>
  The store and the events of an accepted contribution, given the group that was loaded,
  the new total and the new count: the three writes of step 6 and the events of steps 7
  and 8.
\<close>

definition recorded ::
  "Env \<Rightarrow> Storage \<Rightarrow> u64 \<Rightarrow> address \<Rightarrow> Group \<Rightarrow> i128 \<Rightarrow> u32 \<Rightarrow> Storage" where
  "recorded env s gid c grp tot cnt =
     s\<lparr>contribution_individual := (contribution_individual s)
          ((gid, current_cycle grp, c) \<mapsto>
             ContributionRecord c gid (current_cycle grp) (contribution_amount grp)
               (ledger_timestamp env)),
       contribution_cycle_total :=
         (contribution_cycle_total s)((gid, current_cycle grp) \<mapsto> tot),
       contribution_cycle_count :=
         (contribution_cycle_count s)((gid, current_cycle grp) \<mapsto> cnt)\<rparr>"

definition published :: "Env \<Rightarrow> u64 \<Rightarrow> address \<Rightarrow> Group \<Rightarrow> i128 \<Rightarrow> u32 \<Rightarrow> Event list" where
  "published env gid c grp tot cnt =
     ContributionMade gid c (contribution_amount grp) (current_cycle grp) tot
       (ledger_timestamp env) #
     (if cnt = member_count grp then [CycleComplete gid (current_cycle grp)] else [])"

text \<open>
  A sequence of \<open>contribute\<close> invocations for one group, each with its own environment
  and contributor: the final store, the outcomes in order and all the events in order.
\<close>

fun contribute_seq ::
  "Storage \<Rightarrow> u64 \<Rightarrow> (Env \<times> address) list \<Rightarrow> Storage \<times> unit outcome list \<times> Event list" where
  "contribute_seq s gid [] = (s, [], [])"
| "contribute_seq s gid ((env, c) # calls) =
     (case contribute env s gid c of
        (r, s', ev) \<Rightarrow>
          (case contribute_seq s' gid calls of
             (s'', rs, evs) \<Rightarrow> (s'', r # rs, ev @ evs)))"

declare contribute_seq.simps(2) [simp del]

definition accepted :: "unit outcome list \<Rightarrow> nat" where
  "accepted rs = length (filter (\<lambda>r. r = Ok ()) rs)"

definition cycle_completions :: "u64 \<Rightarrow> Event list \<Rightarrow> nat" where
  "cycle_completions gid evs =
     length (filter (\<lambda>e. case e of CycleComplete g _ \<Rightarrow> g = gid | _ \<Rightarrow> False) evs)"

text \<open>
  The contributors that have a record in a cycle, and the sum of the amounts of these
  records.
\<close>

definition contributors_of :: "Storage \<Rightarrow> u64 \<Rightarrow> u32 \<Rightarrow> address set" where
  "contributors_of s gid cyc = {a. contribution_individual s (gid, cyc, a) \<noteq> None}"

definition recorded_sum :: "Storage \<Rightarrow> u64 \<Rightarrow> u32 \<Rightarrow> int" where
  "recorded_sum s gid cyc =
     (\<Sum>a \<in> contributors_of s gid cyc.
        sint (rec_amount (the (contribution_individual s (gid, cyc, a)))))"

text \<open>
  The invariant of the aggregates of one cycle: the total is the sum of the amounts of the
  cycle's records, and the count is the number of contributors that have a record.
\<close>

definition cycle_consistent :: "Storage \<Rightarrow> u64 \<Rightarrow> u32 \<Rightarrow> bool" where
  "cycle_consistent s gid cyc \<longleftrightarrow>
     finite (contributors_of s gid cyc) \<and>
     recorded_sum s gid cyc = sint (total_or_0 s gid cyc) \<and>
     card (contributors_of s gid cyc) = unat (count_or_0 s gid cyc)"

section \<open>The cycle deadline\<close>

text \<open>
  Modelled from the spec: the body of \<open>is_cycle_deadline_passed(group, current_time)\<close>
  (\<open>helpers.rs\<close>) is missing from the sources; its description gives the logic. False
  if the group has not started; the deadline is
  \<open>started_at + (cycle_duration * (current_cycle + 1))\<close>; true if
  \<open>current_time > cycle_deadline\<close>. The arithmetic is that of the formula, on the
  values of the fields.
\<close>

definition is_cycle_deadline_passed :: "Group \<Rightarrow> u64 \<Rightarrow> bool" where
  "is_cycle_deadline_passed grp current_time =
     (case started_at grp of
        None \<Rightarrow> False
      | Some t0 \<Rightarrow>
          let cycle_deadline =
                unat t0 + unat (cycle_duration grp) * (unat (current_cycle grp) + 1)
          in cycle_deadline < unat current_time)"

section \<open>Group lifecycle queries and creation\<close>


text \<open>
  Modelled from the spec: the body of \<open>is_group_active(env, group_id)\<close> is missing from
  the sources; its summary gives the logic. \<open>GroupNotFound\<close> if the group does not
  exist; otherwise true when the status is \<open>Active\<close> and the member count is between 1
  and \<open>max_members\<close> inclusive, false for every other state.
\<close>

definition is_group_active :: "Storage \<Rightarrow> u64 \<Rightarrow> bool outcome" where
  "is_group_active s gid =
     (case group_data s gid of
        None \<Rightarrow> Err GroupNotFound
      | Some grp \<Rightarrow>
          if status_or_default s gid \<noteq> Active then Ok False
          else if member_count grp < 1 \<or> max_members grp < member_count grp then Ok False
          else Ok True)"

section \<open>Formatting a group id\<close>

text \<open>
  Modelled from the spec: the body of \<open>format_group_id(env, group_id)\<close> (\<open>helpers.rs\<close>) is
  missing from the sources; its summary gives the approach. The \<open>u64\<close> is converted to
  its digit bytes, the prefix \<open>GROUP-\<close> is built, and the two are concatenated.
  \<open>digit_byte\<close> is the byte of one digit, \<open>b'0' + d\<close>.
\<close>

definition digit_byte :: "nat \<Rightarrow> char" where
  "digit_byte d = ''0123456789'' ! d"

text \<open>
  Modelled from the spec: the conversion of the number to its digit bytes, most
  significant first; a number below ten is one digit, so zero is the single digit 0.
\<close>

function digit_bytes :: "nat \<Rightarrow> string" where
  "digit_bytes n =
     (if n < 10 then [digit_byte n] else digit_bytes (n div 10) @ [digit_byte (n mod 10)])"
  by pat_completeness auto
termination
  by (relation "measure (\<lambda>n. n)") auto

declare digit_bytes.simps [simp del]

text \<open>
  Modelled from the spec: \<open>format_group_id\<close> itself, the prefix followed by the digit
  bytes of the id (section 6: \<open>GROUP-{id}\<close>).
\<close>

definition format_group_id :: "u64 \<Rightarrow> string" where
  "format_group_id gid = ''GROUP-'' @ digit_bytes (unat gid)"

text \<open>Reading a decimal numeral back: the value of a string of digits.\<close>

definition digit_value :: "char \<Rightarrow> nat" where
  "digit_value ch = of_char ch - 48"

definition decimal_value :: "string \<Rightarrow> nat" where
  "decimal_value ds = foldl (\<lambda>v ch. 10 * v + digit_value ch) 0 ds"

section \<open>A small group, for concrete runs\<close>

text \<open>
  A group of two members, Alice and Bob, active in its first cycle with a contribution
  of 100; Carol authorises calls but has no member profile.
\<close>

definition example_env :: Env where
  "example_env = \<lparr>authorized = {''alice'', ''bob'', ''carol''}, ledger_timestamp = 1000,
     ledger_sequence = 1\<rparr>"

definition example_group :: Group where
  "example_group = \<lparr>group_id = 1, admin = ''admin'', name = ''savers'',
     contribution_amount = 100, cycle_duration = 100, max_members = 3, member_count = 2,
     current_cycle = 0, started_at = Some 1000\<rparr>"

definition example_store :: Storage where
  "example_store = \<lparr>member_profile = {(1, ''alice''), (1, ''bob'')},
     group_data = [1 \<mapsto> example_group], group_status = [1 \<mapsto> Active],
     contribution_individual = Map.empty, contribution_cycle_total = Map.empty,
     contribution_cycle_count = Map.empty\<rparr>"

text \<open>
  Alice contributes, Bob contributes, Alice tries again; the stores after the first and
  after the second call; a second group, created under the unused id 2, and the store
  that holds it; and the first group once it is in its second cycle.
\<close>

definition example_calls :: "(Env \<times> address) list" where
  "example_calls = [(example_env, ''alice''), (example_env, ''bob''), (example_env, ''alice'')]"

definition after_alice :: Storage where
  "after_alice = recorded example_env example_store 1 ''alice'' example_group 100 1"

definition after_bob :: Storage where
  "after_bob = recorded example_env after_alice 1 ''bob'' example_group 200 2"



definition second_cycle_group :: Group where
  "second_cycle_group = example_group\<lparr>current_cycle := 1\<rparr>"

section \<open>The branches of \<open>contribute\<close>\<close>

text \<open>
  One lemma for each way out of \<open>contribute\<close>, in the order of the source, and the case
  analysis that puts them together.
\<close>

lemma contribute_unauthorized:
  "c \<notin> authorized env \<Longrightarrow> contribute env s gid c = (Trap, s, [])"
  by (simp add: contribute_def)

lemma contribute_not_member:
  "c \<in> authorized env \<Longrightarrow> (gid, c) \<notin> member_profile s \<Longrightarrow>
   contribute env s gid c = (Err NotMember, s, [])"
  by (simp add: contribute_def)

lemma contribute_group_not_found:
  "c \<in> authorized env \<Longrightarrow> (gid, c) \<in> member_profile s \<Longrightarrow> group_data s gid = None \<Longrightarrow>
   contribute env s gid c = (Err GroupNotFound, s, [])"
  by (simp add: contribute_def)

lemma contribute_invalid_state:
  "c \<in> authorized env \<Longrightarrow> (gid, c) \<in> member_profile s \<Longrightarrow> group_data s gid = Some grp \<Longrightarrow>
   \<not> accepts_contributions (status_or_default s gid) \<Longrightarrow>
   contribute env s gid c = (Err InvalidState, s, [])"
  by (simp add: contribute_def status_or_default_def)

lemma contribute_invalid_amount:
  "c \<in> authorized env \<Longrightarrow> (gid, c) \<in> member_profile s \<Longrightarrow> group_data s gid = Some grp \<Longrightarrow>
   accepts_contributions (status_or_default s gid) \<Longrightarrow> sint (contribution_amount grp) \<le> 0 \<Longrightarrow>
   contribute env s gid c = (Err InvalidAmount, s, [])"
  by (simp add: contribute_def status_or_default_def)

lemma contribute_already_contributed:
  "c \<in> authorized env \<Longrightarrow> (gid, c) \<in> member_profile s \<Longrightarrow> group_data s gid = Some grp \<Longrightarrow>
   accepts_contributions (status_or_default s gid) \<Longrightarrow> 0 < sint (contribution_amount grp) \<Longrightarrow>
   contribution_individual s (gid, current_cycle grp, c) = Some r \<Longrightarrow>
   contribute env s gid c = (Err AlreadyContributed, s, [])"
  by (simp add: contribute_def status_or_default_def)

lemma contribute_total_overflow:
  "c \<in> authorized env \<Longrightarrow> (gid, c) \<in> member_profile s \<Longrightarrow> group_data s gid = Some grp \<Longrightarrow>
   accepts_contributions (status_or_default s gid) \<Longrightarrow> 0 < sint (contribution_amount grp) \<Longrightarrow>
   contribution_individual s (gid, current_cycle grp, c) = None \<Longrightarrow>
   add_i128 (total_or_0 s gid (current_cycle grp)) (contribution_amount grp) = None \<Longrightarrow>
   contribute env s gid c = (Trap, s, [])"
  by (simp add: contribute_def status_or_default_def total_or_0_def)

lemma contribute_count_overflow:
  "c \<in> authorized env \<Longrightarrow> (gid, c) \<in> member_profile s \<Longrightarrow> group_data s gid = Some grp \<Longrightarrow>
   accepts_contributions (status_or_default s gid) \<Longrightarrow> 0 < sint (contribution_amount grp) \<Longrightarrow>
   contribution_individual s (gid, current_cycle grp, c) = None \<Longrightarrow>
   add_i128 (total_or_0 s gid (current_cycle grp)) (contribution_amount grp) = Some tot \<Longrightarrow>
   add_u32 (count_or_0 s gid (current_cycle grp)) 1 = None \<Longrightarrow>
   contribute env s gid c = (Trap, s, [])"
  by (simp add: contribute_def status_or_default_def total_or_0_def count_or_0_def)

lemma contribute_accepted:
  "c \<in> authorized env \<Longrightarrow> (gid, c) \<in> member_profile s \<Longrightarrow> group_data s gid = Some grp \<Longrightarrow>
   accepts_contributions (status_or_default s gid) \<Longrightarrow> 0 < sint (contribution_amount grp) \<Longrightarrow>
   contribution_individual s (gid, current_cycle grp, c) = None \<Longrightarrow>
   add_i128 (total_or_0 s gid (current_cycle grp)) (contribution_amount grp) = Some tot \<Longrightarrow>
   add_u32 (count_or_0 s gid (current_cycle grp)) 1 = Some cnt \<Longrightarrow>
   contribute env s gid c = (Ok (), recorded env s gid c grp tot cnt, published env gid c grp tot cnt)"
  by (simp add: contribute_def status_or_default_def total_or_0_def count_or_0_def
      recorded_def published_def Let_def)


lemma contribute_cases [case_names Unauthorized Rejected Overflow Accepted]:
  obtains
    (Unauthorized) "c \<notin> authorized env" "contribute env s gid c = (Trap, s, [])"
  | (Rejected) e where "c \<in> authorized env" "contribute env s gid c = (Err e, s, [])"
      "e \<in> {NotMember, GroupNotFound, InvalidState, InvalidAmount, AlreadyContributed}"
      "e = AlreadyContributed \<longrightarrow> (\<exists>grp r. group_data s gid = Some grp \<and>
          contribution_individual s (gid, current_cycle grp, c) = Some r)"
  | (Overflow) "c \<in> authorized env" "contribute env s gid c = (Trap, s, [])"
  | (Accepted) grp tot cnt where
      "c \<in> authorized env" "(gid, c) \<in> member_profile s" "group_data s gid = Some grp"
      "accepts_contributions (status_or_default s gid)" "0 < sint (contribution_amount grp)"
      "contribution_individual s (gid, current_cycle grp, c) = None"
      "add_i128 (total_or_0 s gid (current_cycle grp)) (contribution_amount grp) = Some tot"
      "add_u32 (count_or_0 s gid (current_cycle grp)) 1 = Some cnt"
      "contribute env s gid c =
         (Ok (), recorded env s gid c grp tot cnt, published env gid c grp tot cnt)"
proof (cases "c \<in> authorized env")
  case False
  then show ?thesis using Unauthorized contribute_unauthorized by blast
next
  case auth: True
  show ?thesis
  proof (cases "(gid, c) \<in> member_profile s")
    case False
    with auth show ?thesis using Rejected [of NotMember] contribute_not_member by simp
  next
    case mem: True
    show ?thesis
    proof (cases "group_data s gid")
      case None
      with auth mem show ?thesis
        using Rejected [of GroupNotFound] contribute_group_not_found by simp
    next
      case (Some grp)
      note grp = this
      show ?thesis
      proof (cases "accepts_contributions (status_or_default s gid)")
        case False
        with auth mem grp show ?thesis
          using Rejected [of InvalidState] contribute_invalid_state by simp
      next
        case acc: True
        show ?thesis
        proof (cases "0 < sint (contribution_amount grp)")
          case False
          then have "sint (contribution_amount grp) \<le> 0" by simp
          with auth mem grp acc show ?thesis
            using Rejected [of InvalidAmount] contribute_invalid_amount by simp
        next
          case pos: True
          show ?thesis
          proof (cases "contribution_individual s (gid, current_cycle grp, c)")
            case (Some r)
            with auth mem grp acc pos show ?thesis
              using Rejected [of AlreadyContributed] contribute_already_contributed by simp
          next
            case fresh: None
            show ?thesis
            proof (cases "add_i128 (total_or_0 s gid (current_cycle grp)) (contribution_amount grp)")
              case None
              with auth mem grp acc pos fresh show ?thesis
                using Overflow contribute_total_overflow by simp
            next
              case (Some tot)
              note tot = this
              show ?thesis
              proof (cases "add_u32 (count_or_0 s gid (current_cycle grp)) 1")
                case None
                with auth mem grp acc pos fresh tot show ?thesis
                  using Overflow contribute_count_overflow by simp
              next
                case (Some cnt)
                with auth mem grp acc pos fresh tot show ?thesis
                  using Accepted contribute_accepted by simp
              qed
            qed
          qed
        qed
      qed
    qed
  qed
qed

lemma recorded_simps:
  "member_profile (recorded env s gid c grp tot cnt) = member_profile s"
  "group_data (recorded env s gid c grp tot cnt) = group_data s"
  "group_status (recorded env s gid c grp tot cnt) = group_status s"
  "contribution_individual (recorded env s gid c grp tot cnt) =
     (contribution_individual s)((gid, current_cycle grp, c) \<mapsto>
        ContributionRecord c gid (current_cycle grp) (contribution_amount grp) (ledger_timestamp env))"
  "contribution_cycle_total (recorded env s gid c grp tot cnt) =
     (contribution_cycle_total s)((gid, current_cycle grp) \<mapsto> tot)"
  "contribution_cycle_count (recorded env s gid c grp tot cnt) =
     (contribution_cycle_count s)((gid, current_cycle grp) \<mapsto> cnt)"
  by (simp_all add: recorded_def)

lemma status_or_default_recorded:
  "status_or_default (recorded env s gid c grp tot cnt) g = status_or_default s g"
  by (simp add: status_or_default_def recorded_simps)

lemma example_accepted:
  "contribute example_env example_store 1 ''alice'' =
     (Ok (), recorded example_env example_store 1 ''alice'' example_group 100 1,
      published example_env 1 ''alice'' example_group 100 1)"
  by (rule contribute_accepted)
     (simp_all add: example_env_def example_store_def example_group_def status_or_default_def
        total_or_0_def count_or_0_def add_i128_def add_u32_def)

section \<open>Checked additions that succeed\<close>

lemma add_i128_SomeD:
  assumes "add_i128 a b = Some c"
  shows "c = a + b" and "sint c = sint a + sint b"
proof -
  from assms have c: "c = a + b" and lo: "- (2 ^ 127) \<le> sint a + sint b"
    and hi: "sint a + sint b < 2 ^ 127"
    by (auto simp: add_i128_def split: if_splits)
  show "c = a + b" by (rule c)
  have "sint (a + b) = signed_take_bit 127 (sint a + sint b)"
    by (simp add: sint_word_ariths)
  also have "\<dots> = sint a + sint b"
    using lo hi by (simp add: signed_take_bit_int_eq_self)
  finally show "sint c = sint a + sint b" by (simp add: c)
qed

lemma add_u32_SomeD:
  assumes "add_u32 a b = Some c"
  shows "c = a + b" and "unat c = unat a + unat b"
proof -
  from assms have c: "c = a + b" and lt: "unat a + unat b < 2 ^ 32"
    by (auto simp: add_u32_def split: if_splits)
  show "c = a + b" by (rule c)
  from lt have "unat (a + b) = unat a + unat b"
    by (simp add: unat_add_lem [THEN iffD1])
  then show "unat c = unat a + unat b" by (simp add: c)
qed

section \<open>One call and a sequence of calls, seen from a cycle's aggregates\<close>

lemma aggregates_recorded:
  "total_or_0 (recorded env s gid c grp tot cnt) gid (current_cycle grp) = tot"
  "count_or_0 (recorded env s gid c grp tot cnt) gid (current_cycle grp) = cnt"
  by (simp_all add: total_or_0_def count_or_0_def recorded_simps)

lemma contributors_recorded:
  "contributors_of (recorded env s gid c grp tot cnt) gid (current_cycle grp) =
     insert c (contributors_of s gid (current_cycle grp))"
  by (auto simp: contributors_of_def recorded_simps)

lemma recorded_sum_recorded:
  assumes "finite (contributors_of s gid (current_cycle grp))"
    and "contribution_individual s (gid, current_cycle grp, c) = None"
  shows "recorded_sum (recorded env s gid c grp tot cnt) gid (current_cycle grp) =
    recorded_sum s gid (current_cycle grp) + sint (contribution_amount grp)"
proof -
  let ?C = "contributors_of s gid (current_cycle grp)"
  let ?s' = "recorded env s gid c grp tot cnt"
  from assms(2) have notin: "c \<notin> ?C" by (simp add: contributors_of_def)
  have same: "sint (rec_amount (the (contribution_individual ?s' (gid, current_cycle grp, a)))) =
      sint (rec_amount (the (contribution_individual s (gid, current_cycle grp, a))))"
    if "a \<in> ?C" for a
    using that notin by (auto simp: recorded_simps)
  have "recorded_sum ?s' gid (current_cycle grp) =
      (\<Sum>a \<in> insert c ?C.
         sint (rec_amount (the (contribution_individual ?s' (gid, current_cycle grp, a)))))"
    by (simp add: recorded_sum_def contributors_recorded)
  also have "\<dots> = sint (contribution_amount grp) +
      (\<Sum>a \<in> ?C. sint (rec_amount (the (contribution_individual ?s' (gid, current_cycle grp, a)))))"
    using assms(1) notin by (simp add: recorded_simps)
  also have "(\<Sum>a \<in> ?C. sint (rec_amount (the (contribution_individual ?s' (gid, current_cycle grp, a))))) =
      recorded_sum s gid (current_cycle grp)"
    unfolding recorded_sum_def by (rule sum.cong) (simp_all add: same)
  finally show ?thesis by simp
qed

lemma cycle_completions_simps:
  "cycle_completions gid [] = 0"
  "cycle_completions gid (ev @ evs) = cycle_completions gid ev + cycle_completions gid evs"
  "cycle_completions gid (published env gid c grp tot cnt) =
     (if cnt = member_count grp then 1 else 0)"
  by (simp_all add: cycle_completions_def published_def)

text \<open>One call, seen from the aggregates of the group's current cycle.\<close>

lemma contribute_step:
  assumes grp: "group_data s gid = Some grp"
  obtains (Unchanged) r where "r \<noteq> Ok ()" "contribute env s gid c = (r, s, [])"
  | (Recorded) tot cnt where
      "contribute env s gid c =
         (Ok (), recorded env s gid c grp tot cnt, published env gid c grp tot cnt)"
      "contribution_individual s (gid, current_cycle grp, c) = None"
      "sint tot = sint (total_or_0 s gid (current_cycle grp)) + sint (contribution_amount grp)"
      "tot = total_or_0 s gid (current_cycle grp) + contribution_amount grp"
      "unat cnt = unat (count_or_0 s gid (current_cycle grp)) + 1"
      "cnt = count_or_0 s gid (current_cycle grp) + 1"
proof (cases rule: contribute_cases [where c = c and env = env and s = s and gid = gid])
  case Unauthorized
  then show ?thesis using Unchanged [of Trap] by simp
next
  case (Rejected e)
  then show ?thesis using Unchanged [of "Err e"] by simp
next
  case Overflow
  then show ?thesis using Unchanged [of Trap] by simp
next
  case (Accepted grp' tot cnt)
  with grp have eq: "grp' = grp" by simp
  note acc = Accepted [unfolded eq]
  show ?thesis
  proof (rule Recorded [of tot cnt])
    show "contribute env s gid c =
        (Ok (), recorded env s gid c grp tot cnt, published env gid c grp tot cnt)"
      by (rule acc(9))
    show "contribution_individual s (gid, current_cycle grp, c) = None"
      by (rule acc(6))
    show "sint tot = sint (total_or_0 s gid (current_cycle grp)) + sint (contribution_amount grp)"
      by (rule add_i128_SomeD(2) [OF acc(7)])
    show "tot = total_or_0 s gid (current_cycle grp) + contribution_amount grp"
      by (rule add_i128_SomeD(1) [OF acc(7)])
    show "unat cnt = unat (count_or_0 s gid (current_cycle grp)) + 1"
      using add_u32_SomeD(2) [OF acc(8)] by simp
    show "cnt = count_or_0 s gid (current_cycle grp) + 1"
      by (rule add_u32_SomeD(1) [OF acc(8)])
  qed
qed

lemma contribute_seq_Cons:
  "contribute_seq s gid ((env, c) # calls) =
     (fst (contribute_seq (fst (snd (contribute env s gid c))) gid calls),
      fst (contribute env s gid c) #
        fst (snd (contribute_seq (fst (snd (contribute env s gid c))) gid calls)),
      snd (snd (contribute env s gid c)) @
        snd (snd (contribute_seq (fst (snd (contribute env s gid c))) gid calls)))"
  by (simp add: contribute_seq.simps(2) split: prod.splits)

lemma contribute_seq_group:
  "group_data (fst (contribute_seq s gid calls)) = group_data s"
proof (induction calls arbitrary: s)
  case Nil
  show ?case by simp
next
  case (Cons call calls)
  obtain env c where call: "call = (env, c)" by (cases call)
  show ?case
  proof (cases rule: contribute_cases [where c = c and env = env and s = s and gid = gid])
    case (Accepted grp tot cnt)
    then show ?thesis
      using Cons.IH [of "recorded env s gid c grp tot cnt"]
      by (simp add: call recorded_simps contribute_seq_Cons)
  qed (use Cons.IH [of s] in \<open>simp_all add: call contribute_seq_Cons\<close>)
qed

lemma contribute_seq_aggregates:
  assumes "group_data s gid = Some grp"
  shows "sint (total_or_0 (fst (contribute_seq s gid calls)) gid (current_cycle grp)) =
      sint (total_or_0 s gid (current_cycle grp)) +
      int (accepted (fst (snd (contribute_seq s gid calls)))) * sint (contribution_amount grp) \<and>
    unat (count_or_0 (fst (contribute_seq s gid calls)) gid (current_cycle grp)) =
      unat (count_or_0 s gid (current_cycle grp)) +
      accepted (fst (snd (contribute_seq s gid calls)))"
  using assms
proof (induction calls arbitrary: s)
  case Nil
  show ?case by (simp add: accepted_def)
next
  case (Cons call calls)
  obtain env c where call: "call = (env, c)" by (cases call)
  from Cons.prems show ?case
  proof (cases rule: contribute_step [where env = env and c = c])
    case (Unchanged r)
    then show ?thesis
      using Cons.IH [OF Cons.prems]
      by (simp add: call accepted_def contribute_seq_Cons)
  next
    case (Recorded tot cnt)
    let ?s' = "recorded env s gid c grp tot cnt"
    have "group_data ?s' gid = Some grp" using Cons.prems by (simp add: recorded_simps)
    from Cons.IH [OF this] Recorded show ?thesis
      by (simp add: call accepted_def aggregates_recorded algebra_simps contribute_seq_Cons)
  qed
qed

lemma contribute_seq_records:
  assumes "group_data s gid = Some grp" and "finite (contributors_of s gid (current_cycle grp))"
  shows "finite (contributors_of (fst (contribute_seq s gid calls)) gid (current_cycle grp)) \<and>
    recorded_sum (fst (contribute_seq s gid calls)) gid (current_cycle grp) =
      recorded_sum s gid (current_cycle grp) +
      int (accepted (fst (snd (contribute_seq s gid calls)))) * sint (contribution_amount grp)"
  using assms
proof (induction calls arbitrary: s)
  case Nil
  then show ?case by (simp add: accepted_def)
next
  case (Cons call calls)
  obtain env c where call: "call = (env, c)" by (cases call)
  from Cons.prems(1) show ?case
  proof (cases rule: contribute_step [where env = env and c = c])
    case (Unchanged r)
    then show ?thesis
      using Cons.IH [OF Cons.prems]
      by (simp add: call accepted_def contribute_seq_Cons)
  next
    case (Recorded tot cnt)
    let ?s' = "recorded env s gid c grp tot cnt"
    have g: "group_data ?s' gid = Some grp" using Cons.prems by (simp add: recorded_simps)
    have f: "finite (contributors_of ?s' gid (current_cycle grp))"
      using Cons.prems(2) by (simp add: contributors_recorded)
    from Cons.IH [OF g f] Recorded(1) recorded_sum_recorded [OF Cons.prems(2) Recorded(2)]
    show ?thesis
      by (simp add: call accepted_def algebra_simps contribute_seq_Cons)
  qed
qed

lemma contribute_seq_completions:
  assumes "group_data s gid = Some grp"
  shows "cycle_completions gid (snd (snd (contribute_seq s gid calls))) \<le>
    (if unat (count_or_0 s gid (current_cycle grp)) < unat (member_count grp) then 1 else 0)"
  using assms
proof (induction calls arbitrary: s)
  case Nil
  show ?case by (simp add: cycle_completions_simps)
next
  case (Cons call calls)
  obtain env c where call: "call = (env, c)" by (cases call)
  from Cons.prems show ?case
  proof (cases rule: contribute_step [where env = env and c = c])
    case (Unchanged r)
    then show ?thesis
      using Cons.IH [OF Cons.prems]
      by (simp add: call cycle_completions_simps contribute_seq_Cons)
  next
    case (Recorded tot cnt)
    let ?s' = "recorded env s gid c grp tot cnt"
    have "group_data ?s' gid = Some grp" using Cons.prems by (simp add: recorded_simps)
    from Cons.IH [OF this] have rest:
      "cycle_completions gid (snd (snd (contribute_seq ?s' gid calls))) \<le>
         (if unat cnt < unat (member_count grp) then 1 else 0)"
      by (simp add: aggregates_recorded)
    have here: "cycle_completions gid (snd (snd (contribute_seq s gid (call # calls)))) =
        (if cnt = member_count grp then 1 else 0) +
        cycle_completions gid (snd (snd (contribute_seq ?s' gid calls)))"
      using Recorded(1) by (simp add: call cycle_completions_simps contribute_seq_Cons)
    show ?thesis
    proof (cases "cnt = member_count grp")
      case True
      with rest here Recorded(5) show ?thesis by simp
    next
      case False
      then have "unat cnt \<noteq> unat (member_count grp)" by (simp add: word_unat_eq_iff)
      with rest here Recorded(5) False show ?thesis by (simp split: if_splits)
    qed
  qed
qed

lemma other_cycle_recorded:
  assumes "(g, cyc) \<noteq> (gid, current_cycle grp)"
  shows "contributors_of (recorded env s gid c grp tot cnt) g cyc = contributors_of s g cyc"
    and "recorded_sum (recorded env s gid c grp tot cnt) g cyc = recorded_sum s g cyc"
    and "total_or_0 (recorded env s gid c grp tot cnt) g cyc = total_or_0 s g cyc"
    and "count_or_0 (recorded env s gid c grp tot cnt) g cyc = count_or_0 s g cyc"
  using assms
  by (auto simp: contributors_of_def recorded_sum_def total_or_0_def count_or_0_def
      recorded_simps)

lemma cycle_consistent_recorded:
  assumes "cycle_consistent s gid (current_cycle grp)"
    and "contribution_individual s (gid, current_cycle grp, c) = None"
    and "sint tot = sint (total_or_0 s gid (current_cycle grp)) + sint (contribution_amount grp)"
    and "unat cnt = unat (count_or_0 s gid (current_cycle grp)) + 1"
  shows "cycle_consistent (recorded env s gid c grp tot cnt) gid (current_cycle grp)"
proof -
  from assms(1) have fin: "finite (contributors_of s gid (current_cycle grp))"
    and sum: "recorded_sum s gid (current_cycle grp) = sint (total_or_0 s gid (current_cycle grp))"
    and card: "card (contributors_of s gid (current_cycle grp)) =
      unat (count_or_0 s gid (current_cycle grp))"
    by (simp_all add: cycle_consistent_def)
  from assms(2) have notin: "c \<notin> contributors_of s gid (current_cycle grp)"
    by (simp add: contributors_of_def)
  show ?thesis
    unfolding cycle_consistent_def
    using fin notin sum card assms(3,4) recorded_sum_recorded [OF fin assms(2)]
    by (simp add: contributors_recorded aggregates_recorded)
qed

lemma contribute_consistent:
  assumes "cycle_consistent s g cyc"
  shows "cycle_consistent (fst (snd (contribute env s gid c))) g cyc"
proof (cases "group_data s gid")
  case None
  then have "fst (snd (contribute env s gid c)) = s"
    by (cases rule: contribute_cases [where c = c and env = env and s = s and gid = gid]) simp_all
  with assms show ?thesis by simp
next
  case (Some grp)
  then show ?thesis
  proof (cases rule: contribute_step [where env = env and c = c])
    case (Unchanged r)
    with assms show ?thesis by simp
  next
    case (Recorded tot cnt)
    show ?thesis
    proof (cases "(g, cyc) = (gid, current_cycle grp)")
      case True
      with assms Recorded show ?thesis
        using cycle_consistent_recorded [of s gid grp c tot cnt env] by simp
    next
      case False
      with assms Recorded(1) show ?thesis
        by (simp add: cycle_consistent_def other_cycle_recorded)
    qed
  qed
qed

lemma fresh_cycle_consistent:
  assumes "contribution_cycle_total s (gid, cyc) = None"
    and "contribution_cycle_count s (gid, cyc) = None"
    and "\<forall>a. contribution_individual s (gid, cyc, a) = None"
  shows "contributors_of s gid cyc = {}" and "recorded_sum s gid cyc = 0"
    and "total_or_0 s gid cyc = 0" and "count_or_0 s gid cyc = 0"
  using assms by (simp_all add: contributors_of_def recorded_sum_def total_or_0_def count_or_0_def)

lemma contribute_seq_no_group:
  "group_data s gid = None \<Longrightarrow> snd (snd (contribute_seq s gid calls)) = []"
proof (induction calls)
  case Nil
  show ?case by simp
next
  case (Cons call calls)
  obtain env c where call: "call = (env, c)" by (cases call)
  from Cons.prems have "snd (contribute env s gid c) = (s, [])"
    by (cases rule: contribute_cases [where c = c and env = env and s = s and gid = gid]) simp_all
  with Cons show ?case by (simp add: call contribute_seq_Cons)
qed

lemma contribute_alice:
  "contribute example_env example_store 1 ''alice'' =
     (Ok (), after_alice, published example_env 1 ''alice'' example_group 100 1)"
  by (simp add: example_accepted after_alice_def)

lemma contribute_bob:
  "contribute example_env after_alice 1 ''bob'' =
     (Ok (), after_bob, published example_env 1 ''bob'' example_group 200 2)"
  unfolding after_bob_def
  by (rule contribute_accepted)
     (simp_all add: after_alice_def recorded_simps example_env_def example_store_def
        example_group_def status_or_default_def total_or_0_def count_or_0_def add_i128_def
        add_u32_def)

lemma contribute_alice_again:
  "contribute example_env after_bob 1 ''alice'' = (Err AlreadyContributed, after_bob, [])"
  by (rule contribute_already_contributed [where grp = example_group])
     (simp_all add: after_bob_def after_alice_def recorded_simps example_env_def
        example_store_def example_group_def status_or_default_def)

lemma example_run:
  "contribute_seq example_store 1 example_calls =
     (after_bob, [Ok (), Ok (), Err AlreadyContributed],
      published example_env 1 ''alice'' example_group 100 1 @
      published example_env 1 ''bob'' example_group 200 2)"
  by (simp add: example_calls_def contribute_seq_Cons contribute_alice contribute_bob contribute_alice_again)

lemma cycle_completions_pos:
  "(\<exists>cyc. CycleComplete gid cyc \<in> set evs) \<longleftrightarrow> 0 < cycle_completions gid evs"
  by (induction evs) (auto simp: cycle_completions_def split: Event.splits)

lemma published_complete_iff:
  "CycleComplete g cyc \<in> set (published env gid c grp tot cnt) \<longleftrightarrow>
     g = gid \<and> cyc = current_cycle grp \<and> cnt = member_count grp"
  by (auto simp: published_def)

section \<open>Failures of \<open>contribute\<close>\<close>

text \<open>
  Claim C1. Every invocation of \<open>contribute\<close> that does not return \<open>Ok\<close> leaves the
  whole store as it was and publishes nothing; an error it returns is one of
  \<open>NotMember\<close>, \<open>GroupNotFound\<close>, \<open>InvalidState\<close>, \<open>InvalidAmount\<close> and
  \<open>AlreadyContributed\<close>. After an accepted contribution, a second call by the same
  contributor for the same group fails with \<open>AlreadyContributed\<close> and leaves the store
  (the record, the cycle total and the cycle count with it) unchanged. A call for which
  the record of the group's current cycle exists already is never accepted, and no call
  ever replaces a contribution record that exists: each key (group, cycle, contributor) holds
  the one record that was first written there.
\<close>

theorem contribute_failure_leaves_storage:
  "(fst (contribute env s gid c) \<noteq> Ok () \<longrightarrow> snd (contribute env s gid c) = (s, [])) \<and>
   (\<forall>e. fst (contribute env s gid c) = Err e \<longrightarrow>
      e \<in> {NotMember, GroupNotFound, InvalidState, InvalidAmount, AlreadyContributed}) \<and>
   (\<forall>env'. fst (contribute env s gid c) = Ok () \<and> c \<in> authorized env' \<longrightarrow>
      contribute env' (fst (snd (contribute env s gid c))) gid c =
        (Err AlreadyContributed, fst (snd (contribute env s gid c)), [])) \<and>
   (\<forall>grp r. group_data s gid = Some grp \<and>
      contribution_individual s (gid, current_cycle grp, c) = Some r \<longrightarrow>
      fst (contribute env s gid c) \<noteq> Ok ()) \<and>
   (\<forall>k r. contribution_individual s k = Some r \<longrightarrow>
      contribution_individual (fst (snd (contribute env s gid c))) k = Some r)"
proof (cases rule: contribute_cases [where c = c and env = env and s = s and gid = gid])
  case Unauthorized
  then show ?thesis by simp
next
  case (Rejected e)
  then show ?thesis by simp
next
  case Overflow
  then show ?thesis by simp
next
  case (Accepted grp tot cnt)
  let ?s' = "recorded env s gid c grp tot cnt"
  have again: "contribute env' ?s' gid c = (Err AlreadyContributed, ?s', [])"
    if "c \<in> authorized env'" for env'
    using that Accepted
    by (intro contribute_already_contributed [where grp = grp])
       (simp_all add: recorded_simps status_or_default_recorded)
  have kept: "contribution_individual ?s' k = Some r"
    if "contribution_individual s k = Some r" for k r
    using that Accepted(6) by (auto simp: recorded_simps)
  have absent: "contribution_individual s (gid, current_cycle grp', c) \<noteq> Some r"
    if "group_data s gid = Some grp'" for grp' r
    using that Accepted(3,6) by simp
  from Accepted(9) again kept absent show ?thesis by simp
qed

theorem contribute_failure_leaves_storage_witness:
  "fst (contribute example_env example_store 1 ''alice'') = Ok () \<and>
   ''alice'' \<in> authorized example_env \<and>
   fst (contribute example_env
     (fst (snd (contribute example_env example_store 1 ''alice''))) 1 ''alice'') =
     Err AlreadyContributed"
  using contribute_failure_leaves_storage
    [where c = "''alice''" and env = example_env and s = example_store and gid = 1]
  by (simp add: example_accepted) (simp add: example_env_def)

text \<open>
  Claim C2. For an authorised contributor, \<open>contribute\<close> fails with \<open>NotMember\<close> when
  there is no member profile for (group, contributor), whether or not the group exists
  (the check comes before the group is loaded); with \<open>GroupNotFound\<close> when the member
  profile exists and the group record is absent; and with \<open>InvalidState\<close> when the
  status, read with the default \<open>Forming\<close> for an absent status record, does not accept
  contributions. In particular an absent status record gives \<open>InvalidState\<close>.
\<close>

theorem contribute_validation_order:
  assumes "c \<in> authorized env"
  shows "((gid, c) \<notin> member_profile s \<longrightarrow> fst (contribute env s gid c) = Err NotMember) \<and>
    ((gid, c) \<in> member_profile s \<and> group_data s gid = None \<longrightarrow>
        fst (contribute env s gid c) = Err GroupNotFound) \<and>
    ((gid, c) \<in> member_profile s \<and> group_data s gid \<noteq> None \<and>
       \<not> accepts_contributions (case group_status s gid of None \<Rightarrow> Forming | Some st \<Rightarrow> st) \<longrightarrow>
        fst (contribute env s gid c) = Err InvalidState) \<and>
    ((gid, c) \<in> member_profile s \<and> group_data s gid \<noteq> None \<and> group_status s gid = None \<longrightarrow>
        fst (contribute env s gid c) = Err InvalidState)"
proof (intro conjI impI)
  assume "(gid, c) \<notin> member_profile s"
  with assms show "fst (contribute env s gid c) = Err NotMember"
    by (simp add: contribute_not_member)
next
  assume "(gid, c) \<in> member_profile s \<and> group_data s gid = None"
  with assms show "fst (contribute env s gid c) = Err GroupNotFound"
    by (simp add: contribute_group_not_found)
next
  assume a: "(gid, c) \<in> member_profile s \<and> group_data s gid \<noteq> None \<and>
       \<not> accepts_contributions (case group_status s gid of None \<Rightarrow> Forming | Some st \<Rightarrow> st)"
  then obtain grp where "group_data s gid = Some grp" by auto
  with a assms show "fst (contribute env s gid c) = Err InvalidState"
    by (simp add: contribute_invalid_state status_or_default_def)
next
  assume a: "(gid, c) \<in> member_profile s \<and> group_data s gid \<noteq> None \<and> group_status s gid = None"
  then obtain grp where "group_data s gid = Some grp" by auto
  with a assms show "fst (contribute env s gid c) = Err InvalidState"
    by (simp add: contribute_invalid_state status_or_default_def)
qed

theorem contribute_validation_order_witness:
  "''carol'' \<in> authorized example_env \<and>
   fst (contribute example_env example_store 1 ''carol'') = Err NotMember"
  using contribute_validation_order
    [where c = "''carol''" and env = example_env and s = example_store and gid = 1]
  by (simp add: example_env_def example_store_def)

section \<open>What an accepted contribution writes\<close>

text \<open>
  Claim C10. An accepted \<open>contribute\<close> writes three keys only: the contribution record
  of (group, current cycle, contributor), which was absent, and the cycle total and the
  cycle count of (group, current cycle). Every group record (with its current cycle,
  contribution amount, member count and start time), every group status and every member
  profile is as before, and so is every other contribution record, total and count.
\<close>

theorem contribute_frame:
  assumes "contribute env s gid c = (Ok (), s', ev)"
  shows "member_profile s' = member_profile s \<and> group_data s' = group_data s \<and>
    group_status s' = group_status s \<and>
    (\<exists>grp. group_data s gid = Some grp \<and>
       (\<forall>k. k \<noteq> (gid, current_cycle grp, c) \<longrightarrow>
            contribution_individual s' k = contribution_individual s k) \<and>
       (\<forall>k. k \<noteq> (gid, current_cycle grp) \<longrightarrow>
            contribution_cycle_total s' k = contribution_cycle_total s k \<and>
            contribution_cycle_count s' k = contribution_cycle_count s k) \<and>
       contribution_individual s (gid, current_cycle grp, c) = None \<and>
       contribution_individual s' (gid, current_cycle grp, c) =
         Some (ContributionRecord c gid (current_cycle grp) (contribution_amount grp)
                 (ledger_timestamp env)) \<and>
       contribution_cycle_total s' (gid, current_cycle grp) \<noteq> None \<and>
       contribution_cycle_count s' (gid, current_cycle grp) \<noteq> None)"
proof (cases rule: contribute_cases [where c = c and env = env and s = s and gid = gid])
  case Unauthorized
  with assms show ?thesis by simp
next
  case (Rejected e)
  with assms show ?thesis by simp
next
  case Overflow
  with assms show ?thesis by simp
next
  case (Accepted grp tot cnt)
  with assms have s': "s' = recorded env s gid c grp tot cnt" by simp
  show ?thesis unfolding s' using Accepted(3,6) by (simp add: recorded_simps)
qed

theorem contribute_frame_witness:
  "contribute example_env example_store 1 ''alice'' =
     (Ok (), recorded example_env example_store 1 ''alice'' example_group 100 1,
      published example_env 1 ''alice'' example_group 100 1) \<and>
   group_data (recorded example_env example_store 1 ''alice'' example_group 100 1) =
     group_data example_store"
  using contribute_frame [OF example_accepted] example_accepted by simp

section \<open>Cycle completion\<close>

text \<open>
  Claim C3. A call of \<open>contribute\<close> publishes \<open>CycleComplete\<close> for a group and a cycle
  if and only if it is a call for that group that is accepted, the cycle is the group's
  current cycle and the updated count of the cycle, which is the count before the call
  (0 if absent) plus one and is the count the call stores, equals the group's
  \<open>member_count\<close>. In any sequence of \<open>contribute\<close> calls for a group the event is
  published at most once, so exactly once if it is published at all: the count only
  grows, and a call that is rejected (a duplicate attempt, for instance) publishes
  nothing. No call, whether it publishes the event or not, changes a group record (so
  \<open>current_cycle\<close> does not advance), a status or a member profile.
\<close>

theorem cycle_complete_event:
  "(CycleComplete g cyc \<in> set (snd (snd (contribute env s gid c))) \<longleftrightarrow>
      g = gid \<and> fst (contribute env s gid c) = Ok () \<and>
      (\<exists>grp. group_data s gid = Some grp \<and> cyc = current_cycle grp \<and>
         count_or_0 s gid cyc + 1 = member_count grp \<and>
         unat (count_or_0 s gid cyc) + 1 = unat (member_count grp) \<and>
         contribution_cycle_count (fst (snd (contribute env s gid c))) (gid, cyc) =
           Some (member_count grp))) \<and>
   (\<forall>grp. fst (contribute env s gid c) = Ok () \<and> group_data s gid = Some grp \<longrightarrow>
      contribution_cycle_count (fst (snd (contribute env s gid c))) (gid, current_cycle grp) =
        Some (count_or_0 s gid (current_cycle grp) + 1) \<and>
      unat (count_or_0 s gid (current_cycle grp) + 1) =
        unat (count_or_0 s gid (current_cycle grp)) + 1) \<and>
   cycle_completions gid (snd (snd (contribute_seq s gid calls))) \<le> 1 \<and>
   cycle_completions gid (snd (snd (contribute_seq s gid calls))) =
     (if \<exists>cyc. CycleComplete gid cyc \<in> set (snd (snd (contribute_seq s gid calls)))
      then 1 else 0) \<and>
   (fst (contribute env s gid c) \<noteq> Ok () \<longrightarrow> snd (snd (contribute env s gid c)) = []) \<and>
   group_data (fst (snd (contribute env s gid c))) = group_data s \<and>
   group_status (fst (snd (contribute env s gid c))) = group_status s \<and>
   member_profile (fst (snd (contribute env s gid c))) = member_profile s"
proof -
  have once: "cycle_completions gid (snd (snd (contribute_seq s gid calls))) \<le> 1"
  proof (cases "group_data s gid")
    case None
    then show ?thesis by (simp add: contribute_seq_no_group cycle_completions_simps)
  next
    case (Some grp)
    from contribute_seq_completions [OF this, of calls] show ?thesis
      by (simp split: if_splits)
  qed
  have exact: "cycle_completions gid (snd (snd (contribute_seq s gid calls))) =
     (if \<exists>cyc. CycleComplete gid cyc \<in> set (snd (snd (contribute_seq s gid calls)))
      then 1 else 0)"
    using once cycle_completions_pos [of gid "snd (snd (contribute_seq s gid calls))"]
    by (simp split: if_splits)
  have rest: "(CycleComplete g cyc \<in> set (snd (snd (contribute env s gid c))) \<longleftrightarrow>
      g = gid \<and> fst (contribute env s gid c) = Ok () \<and>
      (\<exists>grp. group_data s gid = Some grp \<and> cyc = current_cycle grp \<and>
         count_or_0 s gid cyc + 1 = member_count grp \<and>
         unat (count_or_0 s gid cyc) + 1 = unat (member_count grp) \<and>
         contribution_cycle_count (fst (snd (contribute env s gid c))) (gid, cyc) =
           Some (member_count grp))) \<and>
   (\<forall>grp. fst (contribute env s gid c) = Ok () \<and> group_data s gid = Some grp \<longrightarrow>
      contribution_cycle_count (fst (snd (contribute env s gid c))) (gid, current_cycle grp) =
        Some (count_or_0 s gid (current_cycle grp) + 1) \<and>
      unat (count_or_0 s gid (current_cycle grp) + 1) =
        unat (count_or_0 s gid (current_cycle grp)) + 1) \<and>
   (fst (contribute env s gid c) \<noteq> Ok () \<longrightarrow> snd (snd (contribute env s gid c)) = []) \<and>
   group_data (fst (snd (contribute env s gid c))) = group_data s \<and>
   group_status (fst (snd (contribute env s gid c))) = group_status s \<and>
   member_profile (fst (snd (contribute env s gid c))) = member_profile s"
  proof (cases rule: contribute_cases [where c = c and env = env and s = s and gid = gid])
    case (Accepted grp tot cnt)
    note cnt = add_u32_SomeD [OF Accepted(8)]
    have stored: "contribution_cycle_count (recorded env s gid c grp tot cnt)
        (gid, current_cycle grp) = Some cnt"
      by (simp add: recorded_simps)
    have fires: "CycleComplete g cyc \<in> set (published env gid c grp tot cnt) \<longleftrightarrow>
        g = gid \<and> cyc = current_cycle grp \<and> cnt = member_count grp"
      by (rule published_complete_iff)
    have eq: "cnt = member_count grp \<longleftrightarrow>
        count_or_0 s gid (current_cycle grp) + 1 = member_count grp \<and>
        unat (count_or_0 s gid (current_cycle grp)) + 1 = unat (member_count grp) \<and>
        Some cnt = Some (member_count grp)"
      using cnt by auto
    have first: "CycleComplete g cyc \<in> set (snd (snd (contribute env s gid c))) \<longleftrightarrow>
      g = gid \<and> fst (contribute env s gid c) = Ok () \<and>
      (\<exists>grp. group_data s gid = Some grp \<and> cyc = current_cycle grp \<and>
         count_or_0 s gid cyc + 1 = member_count grp \<and>
         unat (count_or_0 s gid cyc) + 1 = unat (member_count grp) \<and>
         contribution_cycle_count (fst (snd (contribute env s gid c))) (gid, cyc) =
           Some (member_count grp))"
      unfolding Accepted(9) fst_conv snd_conv fires
      using Accepted(3) eq stored by auto
    have second: "\<forall>grp'. fst (contribute env s gid c) = Ok () \<and> group_data s gid = Some grp' \<longrightarrow>
      contribution_cycle_count (fst (snd (contribute env s gid c))) (gid, current_cycle grp') =
        Some (count_or_0 s gid (current_cycle grp') + 1) \<and>
      unat (count_or_0 s gid (current_cycle grp') + 1) =
        unat (count_or_0 s gid (current_cycle grp')) + 1"
      unfolding Accepted(9) fst_conv snd_conv
      using Accepted(3) stored cnt by auto
    from first second show ?thesis
      by (simp add: Accepted(9) recorded_simps)
  qed simp_all
  from once exact rest show ?thesis by simp
qed

theorem cycle_complete_event_witness:
  "fst (contribute example_env example_store 1 ''alice'') = Ok () \<and>
   CycleComplete 1 0 \<notin> set (snd (snd (contribute example_env example_store 1 ''alice''))) \<and>
   fst (contribute example_env after_alice 1 ''bob'') = Ok () \<and>
   CycleComplete 1 0 \<in> set (snd (snd (contribute example_env after_alice 1 ''bob''))) \<and>
   fst (contribute example_env after_bob 1 ''alice'') \<noteq> Ok () \<and>
   snd (snd (contribute example_env after_bob 1 ''alice'')) = [] \<and>
   cycle_completions 1 (snd (snd (contribute_seq example_store 1 example_calls))) = 1"
proof -
  have first: "CycleComplete 1 0 \<notin> set (snd (snd (contribute example_env example_store 1 ''alice'')))"
    using cycle_complete_event [where env = example_env and s = example_store and gid = 1
      and c = "''alice''" and g = 1 and cyc = 0]
    by (simp add: example_store_def example_group_def count_or_0_def)
  have third: "snd (snd (contribute example_env after_bob 1 ''alice'')) = []"
    using cycle_complete_event [where env = example_env and s = after_bob and gid = 1
      and c = "''alice''"]
    by (simp add: contribute_alice_again)
  from first third show ?thesis
    by (simp add: contribute_alice contribute_bob contribute_alice_again example_run
        cycle_completions_simps published_complete_iff example_group_def)
qed

section \<open>The aggregates of a cycle\<close>

text \<open>
  Claim C4. Start from a store in which the group's current cycle has no record, no total
  and no count. After any sequence of \<open>contribute\<close> calls for the group, of which N
  were accepted, the stored total of the cycle is N times the group's contribution
  amount, the stored count is N, and the total is the sum of the amounts of the cycle's
  contribution records. An accepted call updates both aggregates once, by
  read-modify-write with 0 for an absent key, without overflow. And every call of
  \<open>contribute\<close>, for any group, keeps the invariant of every cycle: total equal to the
  sum of the recorded amounts, count equal to the number of recorded contributors.
\<close>

theorem cycle_aggregates:
  assumes "group_data s gid = Some grp"
    and "contribution_cycle_total s (gid, current_cycle grp) = None"
    and "contribution_cycle_count s (gid, current_cycle grp) = None"
    and "\<forall>a. contribution_individual s (gid, current_cycle grp, a) = None"
  shows "sint (total_or_0 (fst (contribute_seq s gid calls)) gid (current_cycle grp)) =
      int (accepted (fst (snd (contribute_seq s gid calls)))) * sint (contribution_amount grp) \<and>
    unat (count_or_0 (fst (contribute_seq s gid calls)) gid (current_cycle grp)) =
      accepted (fst (snd (contribute_seq s gid calls))) \<and>
    recorded_sum (fst (contribute_seq s gid calls)) gid (current_cycle grp) =
      sint (total_or_0 (fst (contribute_seq s gid calls)) gid (current_cycle grp)) \<and>
    (\<forall>env c s1. group_data s1 gid = Some grp \<and> fst (contribute env s1 gid c) = Ok () \<longrightarrow>
       contribution_cycle_total (fst (snd (contribute env s1 gid c))) (gid, current_cycle grp) =
         Some (total_or_0 s1 gid (current_cycle grp) + contribution_amount grp) \<and>
       sint (total_or_0 s1 gid (current_cycle grp) + contribution_amount grp) =
         sint (total_or_0 s1 gid (current_cycle grp)) + sint (contribution_amount grp) \<and>
       contribution_cycle_count (fst (snd (contribute env s1 gid c))) (gid, current_cycle grp) =
         Some (count_or_0 s1 gid (current_cycle grp) + 1) \<and>
       unat (count_or_0 s1 gid (current_cycle grp) + 1) =
         unat (count_or_0 s1 gid (current_cycle grp)) + 1) \<and>
    (\<forall>env c s1 g g' cyc. cycle_consistent s1 g cyc \<longrightarrow>
       cycle_consistent (fst (snd (contribute env s1 g' c))) g cyc)"
proof (intro conjI allI impI)
  note fresh = fresh_cycle_consistent [OF assms(2,3,4)]
  from contribute_seq_aggregates [OF assms(1), of calls] fresh
  show total: "sint (total_or_0 (fst (contribute_seq s gid calls)) gid (current_cycle grp)) =
      int (accepted (fst (snd (contribute_seq s gid calls)))) * sint (contribution_amount grp)"
    and "unat (count_or_0 (fst (contribute_seq s gid calls)) gid (current_cycle grp)) =
      accepted (fst (snd (contribute_seq s gid calls)))"
    by simp_all
  from fresh have "finite (contributors_of s gid (current_cycle grp))" by simp
  from contribute_seq_records [OF assms(1) this, of calls] fresh total
  show "recorded_sum (fst (contribute_seq s gid calls)) gid (current_cycle grp) =
      sint (total_or_0 (fst (contribute_seq s gid calls)) gid (current_cycle grp))"
    by simp
next
  fix env c s1
  assume a: "group_data s1 gid = Some grp \<and> fst (contribute env s1 gid c) = Ok ()"
  then have g: "group_data s1 gid = Some grp" and ok: "fst (contribute env s1 gid c) = Ok ()"
    by simp_all
  from g have step: "contribution_cycle_total (fst (snd (contribute env s1 gid c))) (gid, current_cycle grp) =
         Some (total_or_0 s1 gid (current_cycle grp) + contribution_amount grp) \<and>
       sint (total_or_0 s1 gid (current_cycle grp) + contribution_amount grp) =
         sint (total_or_0 s1 gid (current_cycle grp)) + sint (contribution_amount grp) \<and>
       contribution_cycle_count (fst (snd (contribute env s1 gid c))) (gid, current_cycle grp) =
         Some (count_or_0 s1 gid (current_cycle grp) + 1) \<and>
       unat (count_or_0 s1 gid (current_cycle grp) + 1) =
         unat (count_or_0 s1 gid (current_cycle grp)) + 1"
  proof (cases rule: contribute_step [where env = env and c = c])
    case (Unchanged r)
    with ok show ?thesis by simp
  next
    case (Recorded tot cnt)
    from Recorded(3,5) show ?thesis
      unfolding Recorded(4) [symmetric] Recorded(6) [symmetric]
      by (simp add: Recorded(1) recorded_simps)
  qed
  from step show "contribution_cycle_total (fst (snd (contribute env s1 gid c))) (gid, current_cycle grp) =
         Some (total_or_0 s1 gid (current_cycle grp) + contribution_amount grp)" by simp
  from step show "sint (total_or_0 s1 gid (current_cycle grp) + contribution_amount grp) =
         sint (total_or_0 s1 gid (current_cycle grp)) + sint (contribution_amount grp)" by simp
  from step show "contribution_cycle_count (fst (snd (contribute env s1 gid c))) (gid, current_cycle grp) =
         Some (count_or_0 s1 gid (current_cycle grp) + 1)" by simp
  from step show "unat (count_or_0 s1 gid (current_cycle grp) + 1) =
         unat (count_or_0 s1 gid (current_cycle grp)) + 1" by simp
next
  fix env c s1 g g' cyc
  assume "cycle_consistent s1 g cyc"
  then show "cycle_consistent (fst (snd (contribute env s1 g' c))) g cyc"
    by (rule contribute_consistent)
qed

theorem cycle_aggregates_witness:
  "group_data example_store 1 = Some example_group \<and>
   contribution_cycle_total example_store (1, current_cycle example_group) = None \<and>
   contribution_cycle_count example_store (1, current_cycle example_group) = None \<and>
   (\<forall>a. contribution_individual example_store (1, current_cycle example_group, a) = None) \<and>
   accepted (fst (snd (contribute_seq example_store 1 example_calls))) = 2 \<and>
   sint (total_or_0 (fst (contribute_seq example_store 1 example_calls)) 1 0) = 200 \<and>
   unat (count_or_0 (fst (contribute_seq example_store 1 example_calls)) 1 0) = 2 \<and>
   recorded_sum (fst (contribute_seq example_store 1 example_calls)) 1 0 = 200"
proof -
  have g: "group_data example_store 1 = Some example_group"
    and t: "contribution_cycle_total example_store (1, current_cycle example_group) = None"
    and n: "contribution_cycle_count example_store (1, current_cycle example_group) = None"
    and r: "\<forall>a. contribution_individual example_store (1, current_cycle example_group, a) = None"
    by (simp_all add: example_store_def)
  have two: "accepted (fst (snd (contribute_seq example_store 1 example_calls))) = 2"
    by (simp add: example_run accepted_def)
  have cyc: "current_cycle example_group = 0" and amt: "sint (contribution_amount example_group) = 100"
    by (simp_all add: example_group_def)
  from cycle_aggregates [OF g t n r, of example_calls] g t n r two
  show ?thesis by (simp add: cyc amt)
qed

section \<open>The deadline of the current cycle\<close>

text \<open>
  Claim C5. \<open>is_cycle_deadline_passed\<close> is false for a group whose \<open>started_at\<close> is
  unset; for a started group it is true if and only if
  \<open>current_time > started_at + cycle_duration * (current_cycle + 1)\<close>, so at the deadline
  itself it is false.
\<close>

theorem deadline_passed_iff:
  "(started_at grp = None \<longrightarrow> \<not> is_cycle_deadline_passed grp t) \<and>
   (\<forall>t0. started_at grp = Some t0 \<longrightarrow>
      is_cycle_deadline_passed grp t =
        (unat t0 + unat (cycle_duration grp) * (unat (current_cycle grp) + 1) < unat t) \<and>
      (unat t = unat t0 + unat (cycle_duration grp) * (unat (current_cycle grp) + 1) \<longrightarrow>
         \<not> is_cycle_deadline_passed grp t))"
  by (simp add: is_cycle_deadline_passed_def Let_def)

theorem deadline_passed_iff_witness:
  "started_at example_group = Some 1000 \<and> \<not> is_cycle_deadline_passed example_group 1100 \<and>
   is_cycle_deadline_passed example_group 1101"
  using deadline_passed_iff [where grp = example_group and t = 1100]
    deadline_passed_iff [where grp = example_group and t = 1101]
  by (simp add: example_group_def)

text \<open>
  Claim C6 says that for every activated group the deadline is not passed at
  \<open>started_at + cycle_duration\<close> and is passed one second later. The second half fails
  for a group beyond its first cycle: in the second cycle the deadline is
  \<open>started_at + 2 * cycle_duration\<close>, and one second after the first deadline it has not
  passed.
\<close>

theorem second_cycle_counterexample:
  "started_at second_cycle_group = Some 1000 \<and> cycle_duration second_cycle_group = 100 \<and>
   \<not> is_cycle_deadline_passed second_cycle_group (1000 + 100 + 1)"
  by (simp add: second_cycle_group_def example_group_def is_cycle_deadline_passed_def
      Let_def)

text \<open>
  Claim C6, amended. For every activated group, in whatever cycle, the deadline is not
  passed at the time \<open>started_at + cycle_duration\<close>. At the time
  \<open>started_at + cycle_duration + 1\<close> it is passed if the group is in its first cycle
  (\<open>current_cycle = 0\<close>) or \<open>cycle_duration\<close> is 0, and not passed otherwise.
\<close>

theorem cycle_boundary:
  assumes "started_at grp = Some t0"
  shows "(unat t = unat t0 + unat (cycle_duration grp) \<longrightarrow> \<not> is_cycle_deadline_passed grp t) \<and>
    (unat t = unat t0 + unat (cycle_duration grp) + 1 \<longrightarrow>
       is_cycle_deadline_passed grp t = (current_cycle grp = 0 \<or> cycle_duration grp = 0))"
proof (intro conjI impI)
  assume "unat t = unat t0 + unat (cycle_duration grp)"
  with assms show "\<not> is_cycle_deadline_passed grp t"
    by (simp add: is_cycle_deadline_passed_def Let_def)
next
  assume t: "unat t = unat t0 + unat (cycle_duration grp) + 1"
  have "unat (cycle_duration grp) * unat (current_cycle grp) = 0 \<longleftrightarrow>
      current_cycle grp = 0 \<or> cycle_duration grp = 0"
    by (auto simp: unat_eq_0)
  moreover have "is_cycle_deadline_passed grp t \<longleftrightarrow>
      unat (cycle_duration grp) * unat (current_cycle grp) = 0"
    using assms t by (simp add: is_cycle_deadline_passed_def Let_def)
  ultimately show "is_cycle_deadline_passed grp t =
      (current_cycle grp = 0 \<or> cycle_duration grp = 0)"
    by simp
qed

theorem cycle_boundary_witness:
  "started_at example_group = Some 1000 \<and>
   unat (1100 :: u64) = unat (1000 :: u64) + unat (cycle_duration example_group) \<and>
   \<not> is_cycle_deadline_passed example_group 1100 \<and>
   unat (1101 :: u64) = unat (1000 :: u64) + unat (cycle_duration example_group) + 1 \<and>
   is_cycle_deadline_passed example_group 1101 \<and>
   started_at second_cycle_group = Some 1000 \<and>
   \<not> is_cycle_deadline_passed second_cycle_group 1100"
proof -
  have started: "started_at example_group = Some 1000"
    and at_deadline: "unat (1100 :: u64) = unat (1000 :: u64) + unat (cycle_duration example_group)"
    and after: "unat (1101 :: u64) = unat (1000 :: u64) + unat (cycle_duration example_group) + 1"
    and first: "current_cycle example_group = 0"
    by (simp_all add: example_group_def)
  have started2: "started_at second_cycle_group = Some 1000"
    and at_deadline2:
      "unat (1100 :: u64) = unat (1000 :: u64) + unat (cycle_duration second_cycle_group)"
    by (simp_all add: second_cycle_group_def example_group_def)
  from cycle_boundary [OF started, of 1100] cycle_boundary [OF started, of 1101]
    cycle_boundary [OF started2, of 1100] started at_deadline after first started2 at_deadline2
  show ?thesis by blast
qed

section \<open>Group queries and creation\<close>

text \<open>
  Claim C8. \<open>is_group_active\<close> returns the error \<open>GroupNotFound\<close> when there is no
  group record; otherwise it returns, without error, whether the status is \<open>Active\<close> and
  \<open>1 \<le> member_count \<le> max_members\<close>.
\<close>

theorem is_group_active_iff:
  "(group_data s gid = None \<longrightarrow> is_group_active s gid = Err GroupNotFound) \<and>
   (\<forall>grp. group_data s gid = Some grp \<longrightarrow>
      is_group_active s gid =
        Ok (group_status s gid = Some Active \<and> 1 \<le> unat (member_count grp) \<and>
            unat (member_count grp) \<le> unat (max_members grp)))"
  by (auto simp: is_group_active_def status_or_default_def word_le_nat_alt word_less_nat_alt
      split: option.splits)

theorem is_group_active_iff_witness:
  "group_data example_store 1 = Some example_group \<and> is_group_active example_store 1 = Ok True \<and>
   group_data example_store 2 = None \<and> is_group_active example_store 2 = Err GroupNotFound"
  using is_group_active_iff [where s = example_store and gid = 1]
    is_group_active_iff [where s = example_store and gid = 2]
  by (simp add: example_store_def example_group_def)






section \<open>The formatted group id\<close>

lemma digit_cases: "d < 10 \<Longrightarrow> d \<in> {0, 1, 2, 3, 4, 5, 6, 7, 8, 9 :: nat}"
  by auto

lemma digit_value_digit_byte: "d < 10 \<Longrightarrow> digit_value (digit_byte d) = d"
  by (drule digit_cases) (auto simp: digit_byte_def digit_value_def)

lemma digit_byte_in_digits: "d < 10 \<Longrightarrow> digit_byte d \<in> set ''0123456789''"
  by (drule digit_cases) (auto simp: digit_byte_def)

lemma digit_byte_zero_iff: "d < 10 \<Longrightarrow> (digit_byte d = CHR ''0'') = (d = 0)"
  by (drule digit_cases) (auto simp: digit_byte_def)

lemma digit_bytes_not_Nil: "digit_bytes n \<noteq> []"
  by (subst digit_bytes.simps) simp

lemma decimal_value_snoc:
  "decimal_value (ds @ [ch]) = 10 * decimal_value ds + digit_value ch"
  by (simp add: decimal_value_def)

lemma decimal_value_digit_bytes: "decimal_value (digit_bytes n) = n"
proof (induction n rule: digit_bytes.induct)
  case (1 n)
  show ?case
  proof (cases "n < 10")
    case True
    then show ?thesis
      by (subst digit_bytes.simps) (simp add: decimal_value_def digit_value_digit_byte)
  next
    case False
    with 1 have "decimal_value (digit_bytes (n div 10)) = n div 10" by simp
    with False show ?thesis
      by (subst digit_bytes.simps) (simp add: decimal_value_snoc digit_value_digit_byte)
  qed
qed

lemma digit_bytes_digits: "set (digit_bytes n) \<subseteq> set ''0123456789''"
proof (induction n rule: digit_bytes.induct)
  case (1 n)
  show ?case
  proof (cases "n < 10")
    case True
    then show ?thesis
      using digit_byte_in_digits [of n] by (subst digit_bytes.simps) simp
  next
    case False
    with 1 have "set (digit_bytes (n div 10)) \<subseteq> set ''0123456789''" by simp
    with False show ?thesis
      using digit_byte_in_digits [of "n mod 10"] by (subst digit_bytes.simps) simp
  qed
qed

lemma digit_bytes_leading: "(hd (digit_bytes n) = CHR ''0'') = (n = 0)"
proof (induction n rule: digit_bytes.induct)
  case (1 n)
  show ?case
  proof (cases "n < 10")
    case True
    then show ?thesis
      by (subst digit_bytes.simps) (simp add: digit_byte_zero_iff)
  next
    case False
    with 1 have "(hd (digit_bytes (n div 10)) = CHR ''0'') = (n div 10 = 0)" by simp
    with False show ?thesis
      by (subst digit_bytes.simps) (simp add: digit_bytes_not_Nil)
  qed
qed

lemma format_group_id_zero: "format_group_id 0 = ''GROUP-0''"
  by (simp add: format_group_id_def digit_bytes.simps digit_byte_def)

lemma format_group_id_max:
  "format_group_id 18446744073709551615 = ''GROUP-18446744073709551615''"
  by (simp add: format_group_id_def digit_bytes.simps digit_byte_def)

text \<open>
  Claim C9. \<open>format_group_id\<close> returns \<open>GROUP-\<close> followed by the decimal numeral of the
  id: a non-empty string of the digits 0 to 9 and nothing else, whose value is the id,
  and which starts with \<open>0\<close> only when it is the string \<open>0\<close>, that is when the id is 0.
  For 0 the result is \<open>GROUP-0\<close>, for \<open>18446744073709551615\<close> it is
  \<open>GROUP-18446744073709551615\<close>.
\<close>

theorem format_group_id_decimal:
  "(\<exists>ds. format_group_id gid = ''GROUP-'' @ ds \<and> ds \<noteq> [] \<and>
      set ds \<subseteq> set ''0123456789'' \<and> decimal_value ds = unat gid \<and>
      (hd ds = CHR ''0'') = (ds = ''0'') \<and> (ds = ''0'') = (gid = 0)) \<and>
   format_group_id 0 = ''GROUP-0'' \<and>
   format_group_id 18446744073709551615 = ''GROUP-18446744073709551615''"
proof -
  let ?ds = "digit_bytes (unat gid)"
  have zero: "(?ds = ''0'') = (gid = 0)"
  proof
    assume "?ds = ''0''"
    then have "hd ?ds = CHR ''0''" by simp
    then show "gid = 0" by (simp add: digit_bytes_leading unat_eq_0)
  next
    assume "gid = 0"
    then show "?ds = ''0''" by (simp add: digit_bytes.simps digit_byte_def)
  qed
  have lead: "(hd ?ds = CHR ''0'') = (?ds = ''0'')"
    using zero by (simp add: digit_bytes_leading unat_eq_0)
  have "format_group_id gid = ''GROUP-'' @ ?ds" by (simp add: format_group_id_def)
  with zero lead show ?thesis
    using digit_bytes_not_Nil digit_bytes_digits decimal_value_digit_bytes
      format_group_id_zero format_group_id_max by blast
qed

theorem format_group_id_decimal_witness:
  "format_group_id 42 = ''GROUP-42'' \<and> decimal_value ''42'' = unat (42 :: u64)"
  using format_group_id_decimal [of 42]
  by (simp add: format_group_id_def digit_bytes.simps digit_byte_def decimal_value_def
      digit_value_def)

end
